theory Spec2Isabelle
  imports Main "HOL-Library.Word"
begin

unbundle bit_operations_syntax

section \<open>Strings\<close>

text \<open>
  A JavaScript string is a sequence of 16-bit code units: \<open>length\<close> counts code units and
  \<open>charCodeAt\<close> reads one. The regular expressions of the source carry no \<open>u\<close> flag, so
  they work on code units as well.
\<close>

type_synonym code_unit = "16 word"
type_synonym jsstring = "code_unit list"

text \<open>
  The class \<open>\s\<close> of a regular expression, which is also what \<open>String.prototype.trim\<close>
  removes (and what the polyfill at the top of the source removes, being written with \<open>\s\<close>):
  the white space and line terminator code units of ECMAScript.
\<close>

definition isSpace :: "code_unit \<Rightarrow> bool" where
  "isSpace c \<longleftrightarrow> c \<in> {0x0009, 0x000A, 0x000B, 0x000C, 0x000D, 0x0020, 0x00A0, 0x1680,
     0x2000, 0x2001, 0x2002, 0x2003, 0x2004, 0x2005, 0x2006, 0x2007, 0x2008, 0x2009, 0x200A,
     0x2028, 0x2029, 0x202F, 0x205F, 0x3000, 0xFEFF}"

text \<open>The class \<open>[\n\r]\<close>.\<close>

definition isLineTerminator :: "code_unit \<Rightarrow> bool" where
  "isLineTerminator c \<longleftrightarrow> c = 0x000A \<or> c = 0x000D"

text \<open>The class \<open>['";:,.?\-!]\<close> with the inverted question and exclamation marks.\<close>

definition isPunctuation :: "code_unit \<Rightarrow> bool" where
  "isPunctuation c \<longleftrightarrow> c \<in> {0x0027, 0x0022, 0x003B, 0x003A, 0x002C, 0x002E, 0x003F, 0x00BF,
     0x002D, 0x0021, 0x00A1}"

text \<open>The class \<open>[a-z]\<close> under the \<open>i\<close> flag: the ASCII letters of both cases.\<close>

definition isLetter :: "code_unit \<Rightarrow> bool" where
  "isLetter c \<longleftrightarrow> (0x0061 \<le> c \<and> c \<le> 0x007A) \<or> (0x0041 \<le> c \<and> c \<le> 0x005A)"

text \<open>\<open>trim\<close>: white space is dropped from both ends.\<close>

definition trim :: "jsstring \<Rightarrow> jsstring" where
  "trim s = rev (dropWhile isSpace (rev (dropWhile isSpace s)))"

text \<open>
  \<open>(s.match(/c{m,}/g) || []).length\<close> for a one-character class \<open>c\<close>: a global match
  is greedy and scans from the left, so every maximal run of the class that has at least
  \<open>m\<close> code units (and at least one) is one match. \<open>k\<close> is the length of the run being
  read.
\<close>

fun matchRuns :: "(code_unit \<Rightarrow> bool) \<Rightarrow> nat \<Rightarrow> nat \<Rightarrow> jsstring \<Rightarrow> nat" where
  "matchRuns P m k [] = (if 0 < k \<and> m \<le> k then 1 else 0)"
| "matchRuns P m k (c # cs) =
     (if P c then matchRuns P m (Suc k) cs
      else (if 0 < k \<and> m \<le> k then 1 else 0) + matchRuns P m 0 cs)"

text \<open>
  The tag pattern \<open><\/?[a-z][^>]*>\<close> of \<open>stripTags\<close>. \<open>tagEnd\<close> is the part
  \<open>[^>]*>\<close>: it reads up to the first \<open>>\<close> and returns what follows it, or fails
  when there is none. \<open>matchTag\<close> matches the whole pattern at the head of a string.
\<close>

fun tagEnd :: "jsstring \<Rightarrow> jsstring option" where
  "tagEnd [] = None"
| "tagEnd (c # cs) = (if c = 0x003E then Some cs else tagEnd cs)"

fun matchTag :: "jsstring \<Rightarrow> jsstring option" where
  "matchTag (c1 # c2 # cs) =
     (if c1 = 0x003C then
        (if c2 = 0x002F then
           (case cs of [] \<Rightarrow> None | c3 # r \<Rightarrow> if isLetter c3 then tagEnd r else None)
         else if isLetter c2 then tagEnd cs
         else None)
      else None)"
| "matchTag _ = None"

text \<open>
  \<open>original.replace(/<\/?[a-z][^>]*>/gi, '')\<close>: the matches are found from the left,
  without overlap, and removed.
\<close>

function stripTagsFrom :: "jsstring \<Rightarrow> jsstring" where
  "stripTagsFrom [] = []"
| "stripTagsFrom (c # cs) =
     (case matchTag (c # cs) of
        Some r \<Rightarrow> stripTagsFrom r
      | None \<Rightarrow> c # stripTagsFrom cs)"
  by pat_completeness auto
termination
proof (relation "measure length")
  have tagEnd_shorter: "length r < length s" if "tagEnd s = Some r" for s r
    using that by (induction s) (auto split: if_splits)
  have matchTag_shorter: "length r < length s" if "matchTag s = Some r" for s r
    using that by (cases s rule: matchTag.cases)
      (auto split: if_splits list.splits dest: tagEnd_shorter)
  show "wf (measure length)" by simp
  show "(r, c # cs) \<in> measure length" if "matchTag (c # cs) = Some r" for c cs r
    using matchTag_shorter [OF that] by simp
  show "(cs, c # cs) \<in> measure length" for c :: code_unit and cs :: jsstring
    by simp
qed

section \<open>Code points\<close>

text \<open>
  \<open>_decode\<close>: the loop reads one code unit, and a second one when the first passes the
  mask test \<open>(value & 0xF800) == 0xD800\<close> and the string has not ended.
\<close>

fun decode :: "jsstring \<Rightarrow> nat list" where
  "decode [] = []"
| "decode [v] = [unat v]"
| "decode (v # e # rest) =
     (if v AND 0xF800 = 0xD800 then
        (if e AND 0xFC00 = 0xDC00 then
           (push_bit 10 (unat (v AND 0x3FF)) + unat (e AND 0x3FF) + 0x10000) # decode rest
         else unat v # unat e # decode rest)
      else unat v # decode (e # rest))"

text \<open>
  The surrogate halves of UTF-16, and the strings in which every half is paired: a high
  half is followed by a low half, and a low half follows a high one. \<open>plain\<close> is a code
  unit that is no half, and \<open>tailFormed\<close> is what is left of a well-formed string after
  its first code unit.
\<close>

definition isHighSurrogate :: "code_unit \<Rightarrow> bool" where
  "isHighSurrogate c \<longleftrightarrow> c AND 0xFC00 = 0xD800"

definition isLowSurrogate :: "code_unit \<Rightarrow> bool" where
  "isLowSurrogate c \<longleftrightarrow> c AND 0xFC00 = 0xDC00"

definition plain :: "code_unit \<Rightarrow> bool" where
  "plain c \<longleftrightarrow> \<not> isHighSurrogate c \<and> \<not> isLowSurrogate c"

fun wellFormed :: "jsstring \<Rightarrow> bool" where
  "wellFormed [] = True"
| "wellFormed [c] = (\<not> isHighSurrogate c \<and> \<not> isLowSurrogate c)"
| "wellFormed (c # d # r) =
     (if isHighSurrogate c then isLowSurrogate d \<and> wellFormed r
      else \<not> isLowSurrogate c \<and> wellFormed (d # r))"

definition tailFormed :: "jsstring \<Rightarrow> bool" where
  "tailFormed s \<longleftrightarrow>
     wellFormed s \<or> (case s of [] \<Rightarrow> False | d # r \<Rightarrow> isLowSurrogate d \<and> wellFormed r)"

section \<open>Counting\<close>

text \<open>
  \<open>_extendDefaults\<close>: the options object is the list of its enumerable properties, each
  with the truth value of what it holds (the source only ever tests these values).
\<close>

record options =
  hardReturns :: bool
  stripTags :: bool

definition extendDefaults :: "(string \<times> bool) list \<Rightarrow> options" where
  "extendDefaults opts =
     fold (\<lambda>(prop, v) defaults.
             if prop = ''hardReturns'' then defaults\<lparr>hardReturns := v\<rparr>
             else if prop = ''stripTags'' then defaults\<lparr>stripTags := v\<rparr>
             else defaults)
          opts \<lparr>hardReturns = False, stripTags = False\<rparr>"

record counts =
  paragraphs :: nat
  words :: nat
  characters :: nat
  all :: nat

text \<open>The body of \<open>_count\<close> once the text of the element has been read.\<close>

definition countText :: "jsstring \<Rightarrow> options \<Rightarrow> counts" where
  "countText text ops =
     (let original = (if stripTags ops then stripTagsFrom text else text);
          trimmed = trim original
      in \<lparr>paragraphs =
            (if trimmed \<noteq> []
             then matchRuns (\<lambda>c. c = 0x000A) (if hardReturns ops then 2 else 1) 0 trimmed + 1
             else 0),
          words =
            (if trimmed \<noteq> []
             then matchRuns (\<lambda>c. \<not> isSpace c) 1 0 (filter (\<lambda>c. \<not> isPunctuation c) trimmed)
             else 0),
          characters =
            (if trimmed \<noteq> [] then length (decode (filter (\<lambda>c. \<not> isSpace c) trimmed)) else 0),
          all = length (decode (filter (\<lambda>c. \<not> isLineTerminator c) original))\<rparr>)"

section \<open>The page\<close>

text \<open>
  The host page, which the source reaches through \<open>document.querySelectorAll\<close>, the
  properties of an element and its listener methods. An element is a reference; the
  elements of the document are numbered in document order, and \<open>querySelectorAll\<close>
  returns the matching ones in that order, each once. A callback is a function of the
  caller, known by its reference.
\<close>

type_synonym element = nat
type_synonym callback = nat

text \<open>
  What the source reads of an element: \<open>elem_value\<close> is \<open>Some\<close> text when the element
  has the property \<open>value\<close>, \<open>innerText\<close> is \<open>None\<close> where it is undefined, and \<open>api\<close>
  tells which listener methods the element has: \<open>addEventListener\<close> and
  \<open>removeEventListener\<close>, or only \<open>attachEvent\<close> and \<open>detachEvent\<close>, or none.
\<close>

datatype listener_api = EventTarget | LegacyEvents | NoEvents

record element_data =
  elem_value :: "jsstring option"
  innerText :: "jsstring option"
  textContent :: jsstring
  api :: listener_api

text \<open>The values that reach the public methods as arguments or leave them as results.\<close>

datatype jsval =
  Undefined | Null | JString jsstring | JFunction callback | JElement element | JOther
  | JCountable

text \<open>
  The closure \<open>handler\<close> that \<open>bind\<close> creates: what it captures, and \<open>h_id\<close>,
  which tells two closures apart as \<open>===\<close> and the listener lists of the page do.
\<close>

record listener =
  h_id :: nat
  h_callback :: callback
  h_element :: element
  h_ops :: options

record binding =
  element :: element
  handler :: listener

text \<open>
  One call of a callback: the receiver, the argument, and what the callback can observe
  of the registry and of the listeners of its element while it runs.
\<close>

record invocation =
  inv_callback :: callback
  inv_this :: element
  inv_counts :: counts
  inv_registry :: "binding list"
  inv_listeners :: "listener list"

text \<open>The three warnings of \<open>_validateArguments\<close>, each with the value it prints.\<close>

datatype diagnostic =
  InvalidSelector jsval | NoElementsFound jsval | InvalidCallback jsval

text \<open>
  The state: the registry \<open>_liveElements\<close>, the number of closures that \<open>bind\<close> has
  created, the document (its size and which elements a selector matches), the elements and
  their listeners for the change event \<open>_event\<close>, whether there is a console to warn
  on, and what has been written to it and which callbacks have been called so far.
\<close>

record state =
  liveElements :: "binding list"
  closures :: nat
  doc_size :: nat
  doc_matches :: "jsstring \<Rightarrow> element \<Rightarrow> bool"
  elements :: "element \<Rightarrow> element_data"
  listeners :: "element \<Rightarrow> listener list"
  has_console :: bool
  warnings :: "diagnostic list"
  calls :: "invocation list"

definition querySelectorAll :: "jsstring \<Rightarrow> state \<Rightarrow> element list" where
  "querySelectorAll sel st = filter (doc_matches st sel) [0..<doc_size st]"

text \<open>
  \<open>addEventListener\<close> ignores a listener that is already registered;
  \<open>attachEvent\<close> does not look.
\<close>

definition addEventListener :: "element \<Rightarrow> listener \<Rightarrow> state \<Rightarrow> state" where
  "addEventListener el h st =
     st\<lparr>listeners := (listeners st)
          (el := if h \<in> set (listeners st el) then listeners st el else listeners st el @ [h])\<rparr>"

definition removeEventListener :: "element \<Rightarrow> listener \<Rightarrow> state \<Rightarrow> state" where
  "removeEventListener el h st = st\<lparr>listeners := (listeners st)(el := remove1 h (listeners st el))\<rparr>"

definition attachEvent :: "element \<Rightarrow> listener \<Rightarrow> state \<Rightarrow> state" where
  "attachEvent el h st = st\<lparr>listeners := (listeners st)(el := listeners st el @ [h])\<rparr>"

definition detachEvent :: "element \<Rightarrow> listener \<Rightarrow> state \<Rightarrow> state" where
  "detachEvent el h st = st\<lparr>listeners := (listeners st)(el := remove1 h (listeners st el))\<rparr>"

text \<open>\<open>Array.prototype.indexOf\<close> and \<open>splice(start, 1)\<close>.\<close>

fun indexOfFrom :: "'a \<Rightarrow> 'a list \<Rightarrow> int \<Rightarrow> int" where
  "indexOfFrom x [] i = - 1"
| "indexOfFrom x (y # ys) i = (if y = x then i else indexOfFrom x ys (i + 1))"

definition indexOf :: "'a list \<Rightarrow> 'a \<Rightarrow> int" where
  "indexOf xs x = indexOfFrom x xs 0"

definition splice1 :: "'a list \<Rightarrow> int \<Rightarrow> 'a list" where
  "splice1 xs start =
     (let len = int (length xs);
          k = nat (if start < 0 then max (len + start) 0 else min start len)
      in take k xs @ drop (Suc k) xs)"

section \<open>The registry\<close>

text \<open>\<open>_count\<close>: the text is read from the element, then counted.\<close>

definition count :: "element_data \<Rightarrow> options \<Rightarrow> counts" where
  "count el ops =
     (let original =
            (case elem_value el of
               Some v \<Rightarrow> v
             | None \<Rightarrow>
                 (case innerText el of
                    Some t \<Rightarrow> if t \<noteq> [] then t else textContent el
                  | None \<Rightarrow> textContent el))
      in countText original ops)"

text \<open>\<open>_query\<close>.\<close>

definition query :: "jsval \<Rightarrow> state \<Rightarrow> element list" where
  "query selector st =
     querySelectorAll (case selector of JString s \<Rightarrow> s | _ \<Rightarrow> [0x263A]) st"

text \<open>\<open>_validateArguments\<close>, with the warnings it writes when there is a console.\<close>

definition validateArguments :: "jsval \<Rightarrow> element list \<Rightarrow> jsval \<Rightarrow> state \<Rightarrow> bool \<times> state" where
  "validateArguments selector elems cb st =
     (let selectorValid = (case selector of JString s \<Rightarrow> True | _ \<Rightarrow> False);
          elementsValid = (elems \<noteq> []);
          callbackValid = (case cb of JFunction f \<Rightarrow> True | _ \<Rightarrow> False);
          w1 = (if \<not> selectorValid then [InvalidSelector selector]
                else if \<not> elementsValid then [NoElementsFound selector]
                else []);
          w2 = (if \<not> callbackValid then [InvalidCallback cb] else []);
          st1 = (if has_console st then st\<lparr>warnings := warnings st @ w1 @ w2\<rparr> else st)
      in (selectorValid \<and> elementsValid \<and> callbackValid, st1))"

text \<open>\<open>_loop\<close>: \<open>while (len--) callback(which[len])\<close>, from the last element down.\<close>

fun loopFrom :: "nat \<Rightarrow> 'a list \<Rightarrow> ('a \<Rightarrow> 's \<Rightarrow> 's) \<Rightarrow> 's \<Rightarrow> 's" where
  "loopFrom 0 which cb s = s"
| "loopFrom (Suc len) which cb s = loopFrom len which cb (cb (which ! len) s)"

definition loop :: "'a list \<Rightarrow> ('a \<Rightarrow> 's \<Rightarrow> 's) \<Rightarrow> 's \<Rightarrow> 's" where
  "loop which cb s = loopFrom (length which) which cb s"

text \<open>
  \<open>callback.call(element, counts)\<close>. The callback is code of the caller: the call is
  recorded, with what the callback can see at that moment, and the callback is taken to
  leave the registry and the page as they are.
\<close>

definition callCallback :: "callback \<Rightarrow> element \<Rightarrow> counts \<Rightarrow> state \<Rightarrow> state" where
  "callCallback cb el c st =
     st\<lparr>calls := calls st @
          [\<lparr>inv_callback = cb, inv_this = el, inv_counts = c,
            inv_registry = liveElements st, inv_listeners = listeners st el\<rparr>]\<rparr>"

text \<open>The body of the closure \<open>handler\<close>.\<close>

definition runHandler :: "listener \<Rightarrow> state \<Rightarrow> state" where
  "runHandler h st =
     callCallback (h_callback h) (h_element h) (count (elements st (h_element h)) (h_ops h)) st"

text \<open>The page delivers the change event to an element: its listeners run in turn.\<close>

definition dispatchEvent :: "element \<Rightarrow> state \<Rightarrow> state" where
  "dispatchEvent el st = fold runHandler (listeners st el) st"

text \<open>The closure \<open>bind\<close> of \<open>live\<close>.\<close>

definition bind :: "callback \<Rightarrow> options \<Rightarrow> element \<Rightarrow> state \<Rightarrow> state" where
  "bind cb ops el st =
     (let h = \<lparr>h_id = closures st, h_callback = cb, h_element = el, h_ops = ops\<rparr>;
          st1 = st\<lparr>closures := Suc (closures st),
                   liveElements := liveElements st @ [\<lparr>element = el, handler = h\<rparr>]\<rparr>;
          st2 = runHandler h st1
      in case api (elements st2 el) of
           EventTarget \<Rightarrow> addEventListener el h st2
         | LegacyEvents \<Rightarrow> attachEvent el h st2
         | NoEvents \<Rightarrow> st2)"

text \<open>
  \<open>live\<close>. The result is \<open>this\<close> or, from the bare \<open>return\<close>, \<open>undefined\<close>.
  \<open>bind\<close> runs only after the validation, so its callback is a function.
\<close>

definition live :: "jsval \<Rightarrow> jsval \<Rightarrow> (string \<times> bool) list \<Rightarrow> state \<Rightarrow> jsval \<times> state" where
  "live selector cb opts st =
     (let elems = query selector st;
          ops = extendDefaults opts;
          (valid, st1) = validateArguments selector elems cb st
      in if \<not> valid then (Undefined, st1)
         else (case cb of
                 JFunction f \<Rightarrow> (JCountable, loop elems (bind f ops) st1)
               | _ \<Rightarrow> (Undefined, st1)))"

text \<open>The function that \<open>die\<close> runs on each element.\<close>

definition unbind :: "element \<Rightarrow> state \<Rightarrow> state" where
  "unbind el st =
     (let liveElement =
            loop (liveElements st) (\<lambda>live found. if element live = el then Some live else found) None
      in case liveElement of
           None \<Rightarrow> st
         | Some le \<Rightarrow>
             (let st1 = (case api (elements st el) of
                           EventTarget \<Rightarrow> removeEventListener el (handler le) st
                         | LegacyEvents \<Rightarrow> detachEvent el (handler le) st
                         | NoEvents \<Rightarrow> st)
              in st1\<lparr>liveElements := splice1 (liveElements st1) (indexOf (liveElements st1) le)\<rparr>))"

text \<open>\<open>die\<close>; the callback it hands to the validation is a function of its own.\<close>

definition die :: "jsval \<Rightarrow> state \<Rightarrow> jsval \<times> state" where
  "die selector st =
     (let elems = query selector st;
          (valid, st1) = validateArguments selector elems (JFunction 0) st
      in if \<not> valid then (Undefined, st1)
         else (JCountable, loop elems unbind st1))"

text \<open>\<open>once\<close>.\<close>

definition once :: "jsval \<Rightarrow> jsval \<Rightarrow> (string \<times> bool) list \<Rightarrow> state \<Rightarrow> jsval \<times> state" where
  "once selector cb opts st =
     (let elems = query selector st;
          (valid, st1) = validateArguments selector elems cb st
      in if \<not> valid then (Undefined, st1)
         else (case cb of
                 JFunction f \<Rightarrow>
                   (JCountable,
                    loop elems
                      (\<lambda>el s. callCallback f el (count (elements s el) (extendDefaults opts)) s) st1)
               | _ \<Rightarrow> (Undefined, st1)))"

text \<open>
  \<open>enabled\<close>. Of the values of \<open>jsval\<close> only an element is an object whose
  \<open>nodeType\<close> is 1.
\<close>

definition enabled :: "jsval \<Rightarrow> state \<Rightarrow> bool" where
  "enabled v st =
     (case v of
        JElement el \<Rightarrow>
          loop (liveElements st) (\<lambda>live isEnabled. if element live = el then True else isEnabled) False
      | _ \<Rightarrow> False)"

text \<open>The state once the script has been loaded into a page: nothing is bound.\<close>

definition loaded :: "nat \<Rightarrow> (jsstring \<Rightarrow> element \<Rightarrow> bool) \<Rightarrow> (element \<Rightarrow> element_data) \<Rightarrow> state" where
  "loaded n m d =
     \<lparr>liveElements = [], closures = 0, doc_size = n, doc_matches = m, elements = d,
      listeners = (\<lambda>el. []), has_console = True, warnings = [], calls = []\<rparr>"

section \<open>Notions for the statements\<close>

text \<open>The Bindings that the registry holds for one element, in the order of the registry.\<close>

definition bindingsOf :: "element \<Rightarrow> state \<Rightarrow> binding list" where
  "bindingsOf el st = filter (\<lambda>b. element b = el) (liveElements st)"

text \<open>The closure that \<open>bind\<close> creates as its \<open>n\<close>-th one.\<close>

definition closure :: "nat \<Rightarrow> callback \<Rightarrow> options \<Rightarrow> element \<Rightarrow> listener" where
  "closure n cb ops el = \<lparr>h_id = n, h_callback = cb, h_element = el, h_ops = ops\<rparr>"

text \<open>
  Every handler on an element of the page is a closure that was created earlier. This
  holds when the script has been loaded and every operation keeps it.
\<close>

definition fresh :: "state \<Rightarrow> bool" where
  "fresh st \<longleftrightarrow> (\<forall>el. \<forall>h\<in>set (listeners st el). h_id h < closures st)"

text \<open>
  The listeners of the page and the registry agree: the handlers on an element are
  closures created earlier, none is there twice, and each belongs to a Binding of that
  element in the registry, on an element that takes listeners. This too holds when the
  script has been loaded and every operation keeps it.
\<close>

definition consistent :: "state \<Rightarrow> bool" where
  "consistent st \<longleftrightarrow>
     fresh st \<and>
     (\<forall>el. distinct (listeners st el)) \<and>
     (\<forall>el. \<forall>h\<in>set (listeners st el).
        api (elements st el) \<noteq> NoEvents \<and> \<lparr>element = el, handler = h\<rparr> \<in> set (liveElements st))"

text \<open>
  A page for the examples: two text areas that hold \<open>a b\<close>, which the selector \<open>*\<close>
  finds and no other selector does; and the states after \<open>live\<close> has run once and
  twice on it.
\<close>

definition textarea :: element_data where
  "textarea = \<lparr>elem_value = Some [0x61, 0x20, 0x62], innerText = None, textContent = [],
     api = EventTarget\<rparr>"

definition examplePage :: state where
  "examplePage = loaded 2 (\<lambda>sel el. sel = [0x2A]) (\<lambda>el. textarea)"


definition boundTwice :: state where
  "boundTwice =
     snd (live (JString [0x2A]) (JFunction 7) []
       (snd (live (JString [0x2A]) (JFunction 7) [] examplePage)))"

section \<open>Properties of the counter\<close>

subsection \<open>Surrogate halves and the decoder\<close>

lemma and_single_bit: "(v :: 'a::len word) AND 2 ^ n = 0 \<or> v AND 2 ^ n = 2 ^ n"
proof (cases "bit v n")
  case True
  then have "v AND 2 ^ n = 2 ^ n"
    by (intro bit_word_eqI) (auto simp: bit_and_iff bit_exp_iff)
  then show ?thesis ..
next
  case False
  then show ?thesis by (simp add: and_exp_eq_0_iff_not_bit)
qed

lemma surrogate_mask_iff:
  "(v :: code_unit) AND 0xF800 = 0xD800 \<longleftrightarrow> isHighSurrogate v \<or> isLowSurrogate v"
proof
  assume a: "v AND 0xF800 = 0xD800"
  have "v AND 0xFC00 = (v AND 0xF800) OR (v AND 0x0400)"
    by (simp flip: bit.conj_disj_distrib)
  then have "v AND 0xFC00 = 0xD800 OR (v AND 0x0400)"
    by (simp add: a)
  with and_single_bit [of v 10] show "isHighSurrogate v \<or> isLowSurrogate v"
    by (auto simp: isHighSurrogate_def isLowSurrogate_def)
next
  assume b: "isHighSurrogate v \<or> isLowSurrogate v"
  have "v AND 0xF800 = (v AND 0xFC00) AND 0xF800"
    by (simp add: and.assoc)
  with b show "v AND 0xF800 = 0xD800"
    by (auto simp: isHighSurrogate_def isLowSurrogate_def)
qed

lemma high_not_low: "isHighSurrogate c \<Longrightarrow> \<not> isLowSurrogate c"
  by (auto simp: isHighSurrogate_def isLowSurrogate_def)

lemma decode_Cons_plain: "plain c \<Longrightarrow> decode (c # s) = unat c # decode s"
  by (cases s) (simp_all add: surrogate_mask_iff plain_def)

lemma decode_Cons_pair:
  "isHighSurrogate c \<Longrightarrow> isLowSurrogate d \<Longrightarrow> length (decode (c # d # s)) = Suc (length (decode s))"
  by (simp add: surrogate_mask_iff) (simp add: isLowSurrogate_def)

lemma wellFormed_Cons_plain: "plain c \<Longrightarrow> wellFormed (c # s) = wellFormed s"
  by (cases s) (simp_all add: plain_def)

lemma wellFormed_filter:
  assumes "wellFormed s" and "\<And>c. P c \<Longrightarrow> plain c"
  shows "wellFormed (filter (\<lambda>c. \<not> P c) s) \<and>
         length (decode (filter (\<lambda>c. \<not> P c) s)) + length (filter P s) = length (decode s)"
  using assms(1)
proof (induction s rule: wellFormed.induct)
  case 1
  then show ?case by simp
next
  case (2 c)
  then have "plain c" by (simp add: plain_def)
  then show ?case by (simp add: plain_def)
next
  case (3 c d r)
  show ?case
  proof (cases "isHighSurrogate c")
    case True
    with 3 have d: "isLowSurrogate d" and r: "wellFormed r" by simp_all
    from True assms(2) [of c] have nc: "\<not> P c" by (auto simp: plain_def)
    from d assms(2) [of d] have nd: "\<not> P d" by (auto simp: plain_def)
    from 3(1) [OF True r] True d nc nd show ?thesis
      by (simp add: decode_Cons_pair del: decode.simps)
  next
    case False
    with 3 have c: "plain c" and r: "wellFormed (d # r)" by (simp_all add: plain_def)
    from 3(2) [OF False r] c show ?thesis
      by (cases "P c") (simp_all add: decode_Cons_plain wellFormed_Cons_plain del: decode.simps wellFormed.simps)
  qed
qed

lemma wellFormed_tail: "wellFormed (c # s) \<Longrightarrow> tailFormed s"
  by (cases s) (auto simp: tailFormed_def split: if_splits)

lemma wellFormed_not_low: "wellFormed (c # s) \<Longrightarrow> \<not> isLowSurrogate c"
  by (cases s) (auto split: if_splits dest: high_not_low)

lemma tagEnd_wellFormed: "tailFormed s \<Longrightarrow> tagEnd s = Some r \<Longrightarrow> wellFormed r"
proof (induction s)
  case Nil
  then show ?case by simp
next
  case (Cons c cs)
  show ?case
  proof (cases "c = 0x003E")
    case True
    then have p: "plain c" by (simp add: plain_def isHighSurrogate_def isLowSurrogate_def)
    with Cons.prems have "wellFormed (c # cs)" by (auto simp: tailFormed_def plain_def)
    with p Cons.prems True show ?thesis by (simp add: wellFormed_Cons_plain del: wellFormed.simps)
  next
    case False
    from Cons.prems(1) have "tailFormed cs"
      by (auto simp: tailFormed_def dest: wellFormed_tail simp del: wellFormed.simps)
    with Cons.IH Cons.prems(2) False show ?thesis by simp
  qed
qed

lemma matchTag_wellFormed:
  assumes w: "wellFormed s" and m: "matchTag s = Some r"
  shows "wellFormed r"
proof -
  from m obtain c1 c2 cs where s: "s = c1 # c2 # cs"
    by (cases s rule: matchTag.cases) auto
  from m s have lt: "c1 = 0x003C" by (auto split: if_splits)
  then have "plain c1" by (simp add: plain_def isHighSurrogate_def isLowSurrogate_def)
  with w s have w2: "wellFormed (c2 # cs)" by (simp add: wellFormed_Cons_plain del: wellFormed.simps)
  show ?thesis
  proof (cases "c2 = 0x002F")
    case True
    then have "plain c2" by (simp add: plain_def isHighSurrogate_def isLowSurrogate_def)
    with w2 have w3: "wellFormed cs" by (simp add: wellFormed_Cons_plain del: wellFormed.simps)
    from m s lt True obtain c3 r3 where cs: "cs = c3 # r3" and t: "tagEnd r3 = Some r"
      by (auto split: if_splits list.splits)
    from w3 cs have "tailFormed r3" by (auto dest: wellFormed_tail)
    with t show ?thesis by (rule tagEnd_wellFormed [rotated])
  next
    case False
    with m s lt have t: "tagEnd cs = Some r" by (auto split: if_splits)
    from w2 have "tailFormed cs" by (rule wellFormed_tail)
    with t show ?thesis by (rule tagEnd_wellFormed [rotated])
  qed
qed

lemma matchTag_shorter: "matchTag s = Some r \<Longrightarrow> length r < length s"
proof -
  have tagEnd_shorter: "length r < length s" if "tagEnd s = Some r" for s r
    using that by (induction s) (auto split: if_splits)
  show "matchTag s = Some r \<Longrightarrow> length r < length s"
    by (cases s rule: matchTag.cases)
       (auto split: if_splits list.splits dest: tagEnd_shorter)
qed

lemma matchTag_head: "matchTag (c # cs) = Some r \<Longrightarrow> c = 0x003C"
  by (cases cs) (auto split: if_splits)

lemma stripTagsFrom_wellFormed: "wellFormed s \<Longrightarrow> wellFormed (stripTagsFrom s)"
proof (induction s rule: length_induct)
  case (1 s)
  show ?case
  proof (cases s)
    case Nil
    then show ?thesis by simp
  next
    case (Cons c cs)
    show ?thesis
    proof (cases "matchTag (c # cs)")
      case (Some r)
      from Some have "length r < length s" using matchTag_shorter Cons by blast
      moreover from Some "1.prems" Cons have "wellFormed r" using matchTag_wellFormed by blast
      ultimately have "wellFormed (stripTagsFrom r)" using "1.IH" by blast
      with Some Cons show ?thesis by simp
    next
      case None
      then have eq: "stripTagsFrom s = c # stripTagsFrom cs" using Cons by simp
      show ?thesis
      proof (cases "isHighSurrogate c")
        case True
        with "1.prems" Cons obtain d r where cs: "cs = d # r" and d: "isLowSurrogate d" and r: "wellFormed r"
          by (cases cs) auto
        from d have "d \<noteq> 0x003C" by (auto simp: isLowSurrogate_def)
        then have "matchTag (d # r) = None" using matchTag_head [of d r] by (cases "matchTag (d # r)") auto
        then have eq2: "stripTagsFrom cs = d # stripTagsFrom r" using cs by simp
        from r "1.IH" Cons cs have "wellFormed (stripTagsFrom r)" by simp
        with True d eq eq2 show ?thesis by simp
      next
        case False
        with "1.prems" Cons have p: "plain c" by (auto simp: plain_def dest: wellFormed_not_low)
        with "1.prems" Cons have "wellFormed cs" by (simp add: wellFormed_Cons_plain del: wellFormed.simps)
        with "1.IH" Cons have "wellFormed (stripTagsFrom cs)" by simp
        with p eq show ?thesis by (simp add: wellFormed_Cons_plain del: wellFormed.simps)
      qed
    qed
  qed
qed

lemma filter_dropWhile_neg: "filter (\<lambda>c. \<not> P c) (dropWhile P xs) = filter (\<lambda>c. \<not> P c) xs"
  by (induction xs) auto

lemma filter_trim: "filter (\<lambda>c. \<not> isSpace c) (trim s) = filter (\<lambda>c. \<not> isSpace c) s"
  by (simp add: trim_def rev_filter [symmetric] filter_dropWhile_neg)

lemma isSpace_plain: "isSpace c \<Longrightarrow> plain c"
  by (auto simp: isSpace_def plain_def isHighSurrogate_def isLowSurrogate_def)

lemma isLineTerminator_plain: "isLineTerminator c \<Longrightarrow> plain c"
  by (auto simp: isLineTerminator_def plain_def isHighSurrogate_def isLowSurrogate_def)

lemma isLineTerminator_isSpace: "isLineTerminator c \<Longrightarrow> isSpace c"
  by (auto simp: isLineTerminator_def isSpace_def)

lemma trim_Nil: "trim s = [] \<Longrightarrow> filter (\<lambda>c. \<not> isSpace c) s = []"
  using filter_trim [of s] by simp

lemma characters_eq:
  "characters (countText t cfg) =
     length (decode (filter (\<lambda>c. \<not> isSpace c) (if stripTags cfg then stripTagsFrom t else t)))"
  by (simp add: countText_def Let_def filter_trim trim_Nil)

lemma all_eq:
  "all (countText t cfg) =
     length (decode (filter (\<lambda>c. \<not> isLineTerminator c) (if stripTags cfg then stripTagsFrom t else t)))"
  by (simp add: countText_def Let_def)

lemma all_characters:
  assumes "wellFormed t"
  shows "all (countText t cfg) = characters (countText t cfg) +
     length (filter (\<lambda>c. isSpace c \<and> \<not> isLineTerminator c) (if stripTags cfg then stripTagsFrom t else t))"
proof -
  define s where "s = (if stripTags cfg then stripTagsFrom t else t)"
  define a where "a = filter (\<lambda>c. \<not> isLineTerminator c) s"
  from assms have ws: "wellFormed s" by (simp add: s_def stripTagsFrom_wellFormed)
  then have wa: "wellFormed a"
    unfolding a_def using wellFormed_filter [of s isLineTerminator] isLineTerminator_plain by blast
  have f1: "filter (\<lambda>c. \<not> isSpace c) a = filter (\<lambda>c. \<not> isSpace c) s"
    unfolding a_def by (auto simp: isLineTerminator_isSpace intro: filter_cong)
  have f2: "filter isSpace a = filter (\<lambda>c. isSpace c \<and> \<not> isLineTerminator c) s"
    unfolding a_def by (auto intro: filter_cong)
  from wellFormed_filter [OF wa, of isSpace] isSpace_plain
  have "length (decode (filter (\<lambda>c. \<not> isSpace c) a)) + length (filter isSpace a) = length (decode a)"
    by blast
  then show ?thesis
    unfolding characters_eq all_eq s_def [symmetric] a_def [symmetric] f1 [symmetric] f2 [symmetric]
    by simp
qed

subsection \<open>The claims about counting\<close>

text \<open>
  C2, as stated, fails in its second equality. The three texts of the claim are \<open>a\n\nb\<close>, \<open>a\n\nb\<close> and
  \<open>a\nb\<close>. With \<open>hardReturns\<close> the pattern \<open>\n{2,}\<close> matches the two line feeds of
  \<open>a\n\nb\<close> once, so that text has two paragraphs, not one as the claim says.
\<close>

theorem C2_hardReturns_counterexample:
  "paragraphs (countText [0x61, 0x0A, 0x0A, 0x62] (extendDefaults [(''hardReturns'', True)])) \<noteq> 1"
  by (simp add: countText_def extendDefaults_def trim_def isSpace_def)

text \<open>
  C2, amended: the paragraph counts of the three texts are 2 without \<open>hardReturns\<close>, 2
  with \<open>hardReturns\<close> for \<open>a\n\nb\<close>, and 1 with \<open>hardReturns\<close> for \<open>a\nb\<close>.
\<close>

theorem C2_paragraphs:
  "paragraphs (countText [0x61, 0x0A, 0x0A, 0x62] (extendDefaults [(''hardReturns'', False)])) = 2 \<and>
   paragraphs (countText [0x61, 0x0A, 0x0A, 0x62] (extendDefaults [(''hardReturns'', True)])) = 2 \<and>
   paragraphs (countText [0x61, 0x0A, 0x62] (extendDefaults [(''hardReturns'', True)])) = 1"
  by (simp add: countText_def extendDefaults_def trim_def isSpace_def)

text \<open>
  C3, as stated, fails on \<open>a\nb\<close>: the text has white space, the line feed, and still the
  two fields are equal, since \<open>all\<close> leaves line feeds and carriage returns out.
\<close>

theorem C3_counterexample:
  "\<not> (all (countText [0x61, 0x0A, 0x62] \<lparr>hardReturns = False, stripTags = False\<rparr>) =
        characters (countText [0x61, 0x0A, 0x62] \<lparr>hardReturns = False, stripTags = False\<rparr>)
      \<longleftrightarrow> \<not> list_ex isSpace [0x61, 0x0A, 0x62])"
  by (simp add: countText_def trim_def isSpace_def isLineTerminator_def)

text \<open>
  C3, amended: for a text in which every surrogate half is paired, \<open>characters\<close> is at
  most \<open>all\<close>, and the two are equal exactly when the text that is counted (the text
  itself, or what \<open>stripTags\<close> leaves of it) has no white space other than line feeds and
  carriage returns.
\<close>

theorem C3_characters_le_all:
  "wellFormed t \<Longrightarrow>
     characters (countText t cfg) \<le> all (countText t cfg) \<and>
     (all (countText t cfg) = characters (countText t cfg) \<longleftrightarrow>
        \<not> list_ex (\<lambda>c. isSpace c \<and> \<not> isLineTerminator c)
            (if stripTags cfg then stripTagsFrom t else t))"
  using all_characters [of t cfg]
  by (auto simp: list_ex_iff filter_empty_conv simp del: all_simps)

theorem C3_characters_le_all_witness:
  "wellFormed [0x61, 0x20, 0xD83D, 0xDE00, 0x0A, 0x62] \<and>
   characters (countText [0x61, 0x20, 0xD83D, 0xDE00, 0x0A, 0x62] \<lparr>hardReturns = False, stripTags = True\<rparr>)
     \<le> all (countText [0x61, 0x20, 0xD83D, 0xDE00, 0x0A, 0x62] \<lparr>hardReturns = False, stripTags = True\<rparr>) \<and>
   all (countText [0x61, 0x20, 0xD83D, 0xDE00, 0x0A, 0x62] \<lparr>hardReturns = False, stripTags = True\<rparr>)
     \<noteq> characters (countText [0x61, 0x20, 0xD83D, 0xDE00, 0x0A, 0x62] \<lparr>hardReturns = False, stripTags = True\<rparr>)"
proof -
  have h: "wellFormed [0x61, 0x20, 0xD83D, 0xDE00, 0x0A, 0x62]"
    by (simp add: isHighSurrogate_def isLowSurrogate_def)
  have "list_ex (\<lambda>c. isSpace c \<and> \<not> isLineTerminator c)
          (stripTagsFrom [0x61, 0x20, 0xD83D, 0xDE00, 0x0A, 0x62])"
    by (simp add: isSpace_def isLineTerminator_def)
  with h C3_characters_le_all [OF h, of "\<lparr>hardReturns = False, stripTags = True\<rparr>"]
  show ?thesis by simp
qed

text \<open>
  Why C3 is stated for well-formed texts: in \<open>\uD83D\<close>, a space and two emoji, the
  unpaired half takes the space for its partner; without the space it takes the high half
  of the first emoji, and no pair is decoded. \<open>characters\<close> is then larger than \<open>all\<close>.
\<close>

lemma characters_exceeds_all:
  "characters (countText [0xD83D, 0x20, 0xD83D, 0xDE00, 0xD83D, 0xDE00] cfg) = 5 \<and>
   all (countText [0xD83D, 0x20, 0xD83D, 0xDE00, 0xD83D, 0xDE00] cfg) = 4"
  by (simp add: countText_def trim_def isSpace_def isLineTerminator_def)

text \<open>
  C5. The two emoji of the claim are two surrogate pairs, and they count as two
  characters under every configuration.
\<close>

lemma characters_two_pairs: "characters (countText [0xD83D, 0xDE00, 0xD83D, 0xDE00] cfg) = 2"
  by (simp add: countText_def trim_def isSpace_def)

text \<open>
  C5 at the text of two low surrogate halves, \<open>\uDC00\uDC00\<close>. Neither half is paired,
  yet the mask \<open>0xF800\<close> takes the first for a high half and the decoder joins the two
  into one code point: the text counts as one character and not as two.
\<close>

theorem C5_unpaired_halves_joined:
  "\<not> isHighSurrogate 0xDC00 \<and> decode [0xDC00, 0xDC00] = [0x10000] \<and>
   characters (countText [0xDC00, 0xDC00] cfg) = 1 \<and> all (countText [0xDC00, 0xDC00] cfg) = 1"
  by (simp add: countText_def trim_def isSpace_def isLineTerminator_def isHighSurrogate_def)

text \<open>C6: the empty text has no paragraphs, words or characters, whatever the configuration.\<close>

theorem C6_empty_text:
  "countText [] cfg = \<lparr>paragraphs = 0, words = 0, characters = 0, all = 0\<rparr>"
  by (simp add: countText_def trim_def)

section \<open>Properties of the registry\<close>

subsection \<open>Loops, validation and the effect of the operations\<close>

lemma loopFrom_foldr: "n \<le> length which \<Longrightarrow> loopFrom n which cb s = foldr cb (take n which) s"
  by (induction n arbitrary: s) (simp_all add: take_Suc_conv_app_nth)

lemma loop_foldr: "loop which cb s = foldr cb which s"
  by (simp add: loop_def loopFrom_foldr)

lemma query_distinct: "distinct (query sel st)"
  by (simp add: query_def querySelectorAll_def)

lemma enabled_iff: "enabled (JElement el) st \<longleftrightarrow> bindingsOf el st \<noteq> []"
proof -
  have "foldr (\<lambda>live isEnabled. if element live = el then True else isEnabled) bs False
          \<longleftrightarrow> filter (\<lambda>b. element b = el) bs \<noteq> []" for bs
    by (induction bs) auto
  then show ?thesis by (simp add: enabled_def loop_foldr bindingsOf_def)
qed

lemma bind_frame:
  "elements (bind cb ops el st) = elements st"
  "doc_size (bind cb ops el st) = doc_size st"
  "doc_matches (bind cb ops el st) = doc_matches st"
  "closures (bind cb ops el st) = Suc (closures st)"
  "liveElements (bind cb ops el st) = liveElements st @
     [\<lparr>element = el, handler = \<lparr>h_id = closures st, h_callback = cb, h_element = el, h_ops = ops\<rparr>\<rparr>]"
  "calls (bind cb ops el st) = calls st @
     [\<lparr>inv_callback = cb, inv_this = el, inv_counts = count (elements st el) ops,
       inv_registry = liveElements st @
         [\<lparr>element = el, handler = \<lparr>h_id = closures st, h_callback = cb, h_element = el, h_ops = ops\<rparr>\<rparr>],
       inv_listeners = listeners st el\<rparr>]"
  by (simp_all add: bind_def Let_def runHandler_def callCallback_def addEventListener_def
        attachEvent_def split: listener_api.splits)

lemma bind_listeners_other: "x \<noteq> el \<Longrightarrow> listeners (bind cb ops x st) el = listeners st el"
  by (simp add: bind_def Let_def runHandler_def callCallback_def addEventListener_def
        attachEvent_def split: listener_api.splits)

lemma bind_listeners_same:
  "\<forall>h\<in>set (listeners st el). h_id h < closures st \<Longrightarrow>
   listeners (bind cb ops el st) el =
     (if api (elements st el) = NoEvents then listeners st el
      else listeners st el @ [\<lparr>h_id = closures st, h_callback = cb, h_element = el, h_ops = ops\<rparr>])"
  by (auto simp: bind_def Let_def runHandler_def callCallback_def addEventListener_def
        attachEvent_def split: listener_api.splits)

lemma bindingsOf_bind:
  "bindingsOf el (bind cb ops x st) =
     (if x = el then bindingsOf el st @ [\<lparr>element = el, handler = closure (closures st) cb ops el\<rparr>]
      else bindingsOf el st)"
  by (simp add: bindingsOf_def bind_frame closure_def)

lemma binds_frame:
  "elements (foldr (bind cb ops) elems st) = elements st"
  "doc_size (foldr (bind cb ops) elems st) = doc_size st"
  "doc_matches (foldr (bind cb ops) elems st) = doc_matches st"
  "closures (foldr (bind cb ops) elems st) = closures st + length elems"
  by (induction elems) (simp_all add: bind_frame)

lemma binds_calls: "\<exists>cs. calls (foldr (bind cb ops) elems st) = calls st @ cs"
  by (induction elems) (auto simp: bind_frame)

lemma binds_other:
  "el \<notin> set elems \<Longrightarrow>
     bindingsOf el (foldr (bind cb ops) elems st) = bindingsOf el st \<and>
     listeners (foldr (bind cb ops) elems st) el = listeners st el"
  by (induction elems) (auto simp: bindingsOf_bind bind_listeners_other)

lemma binds_same:
  assumes "el \<in> set elems" and "distinct elems"
    and "\<forall>h\<in>set (listeners st el). h_id h < closures st"
  shows "\<exists>n R. closures st \<le> n \<and> n < closures (foldr (bind cb ops) elems st) \<and>
     bindingsOf el (foldr (bind cb ops) elems st) =
       bindingsOf el st @ [\<lparr>element = el, handler = closure n cb ops el\<rparr>] \<and>
     listeners (foldr (bind cb ops) elems st) el =
       (if api (elements st el) = NoEvents then listeners st el
        else listeners st el @ [closure n cb ops el]) \<and>
     \<lparr>inv_callback = cb, inv_this = el, inv_counts = count (elements st el) ops,
      inv_registry = R @ [\<lparr>element = el, handler = closure n cb ops el\<rparr>],
      inv_listeners = listeners st el\<rparr>
       \<in> set (drop (length (calls st)) (calls (foldr (bind cb ops) elems st)))"
  using assms(1,2)
proof (induction elems)
  case Nil
  then show ?case by simp
next
  case (Cons x xs)
  define st1 where "st1 = foldr (bind cb ops) xs st"
  obtain cs where cs: "calls st1 = calls st @ cs"
    unfolding st1_def using binds_calls by blast
  have fr: "elements st1 = elements st" "closures st1 = closures st + length xs"
    unfolding st1_def by (simp_all add: binds_frame)
  show ?case
  proof (cases "x = el")
    case True
    with Cons.prems have "el \<notin> set xs" by simp
    then have same: "bindingsOf el st1 = bindingsOf el st" "listeners st1 el = listeners st el"
      unfolding st1_def using binds_other by blast+
    from assms(3) same fr have fresh: "\<forall>h\<in>set (listeners st1 el). h_id h < closures st1"
      by auto
    have "closures st \<le> closures st1 \<and> closures st1 < closures (bind cb ops el st1) \<and>
      bindingsOf el (bind cb ops el st1) =
        bindingsOf el st @ [\<lparr>element = el, handler = closure (closures st1) cb ops el\<rparr>] \<and>
      listeners (bind cb ops el st1) el =
        (if api (elements st el) = NoEvents then listeners st el
         else listeners st el @ [closure (closures st1) cb ops el]) \<and>
      \<lparr>inv_callback = cb, inv_this = el, inv_counts = count (elements st el) ops,
       inv_registry = liveElements st1 @ [\<lparr>element = el, handler = closure (closures st1) cb ops el\<rparr>],
       inv_listeners = listeners st el\<rparr>
        \<in> set (drop (length (calls st)) (calls (bind cb ops el st1)))"
      using same fr cs
      by (simp add: bindingsOf_bind bind_listeners_same [OF fresh] bind_frame closure_def)
    then show ?thesis
      unfolding True foldr.simps o_apply st1_def [symmetric] by blast
  next
    case False
    with Cons.prems have "el \<in> set xs" "distinct xs" by simp_all
    from Cons.IH [OF this] obtain n R where
      n: "closures st \<le> n" "n < closures st1" and
      b: "bindingsOf el st1 = bindingsOf el st @ [\<lparr>element = el, handler = closure n cb ops el\<rparr>]" and
      l: "listeners st1 el =
            (if api (elements st el) = NoEvents then listeners st el
             else listeners st el @ [closure n cb ops el])" and
      i: "\<lparr>inv_callback = cb, inv_this = el, inv_counts = count (elements st el) ops,
           inv_registry = R @ [\<lparr>element = el, handler = closure n cb ops el\<rparr>],
           inv_listeners = listeners st el\<rparr> \<in> set (drop (length (calls st)) (calls st1))"
      unfolding st1_def by blast
    have "closures st \<le> n \<and> n < closures (bind cb ops x st1) \<and>
      bindingsOf el (bind cb ops x st1) =
        bindingsOf el st @ [\<lparr>element = el, handler = closure n cb ops el\<rparr>] \<and>
      listeners (bind cb ops x st1) el =
        (if api (elements st el) = NoEvents then listeners st el
         else listeners st el @ [closure n cb ops el]) \<and>
      \<lparr>inv_callback = cb, inv_this = el, inv_counts = count (elements st el) ops,
       inv_registry = R @ [\<lparr>element = el, handler = closure n cb ops el\<rparr>],
       inv_listeners = listeners st el\<rparr>
        \<in> set (drop (length (calls st)) (calls (bind cb ops x st1)))"
      using False n b l i cs
      by (simp add: bindingsOf_bind bind_listeners_other bind_frame)
    then show ?thesis
      unfolding foldr.simps o_apply st1_def [symmetric] by blast
  qed
qed

lemma live_valid:
  "query (JString sel) st \<noteq> [] \<Longrightarrow>
     live (JString sel) (JFunction cb) opts st =
       (JCountable, foldr (bind cb (extendDefaults opts)) (query (JString sel) st) st)"
  by (simp add: live_def validateArguments_def Let_def loop_foldr)

lemma find_loop:
  "loop bs (\<lambda>live found. if element live = el then Some live else found) None =
     (case filter (\<lambda>b. element b = el) bs of [] \<Rightarrow> None | b # _ \<Rightarrow> Some b)"
  unfolding loop_foldr by (induction bs) auto

lemma indexOfFrom_remove1:
  "x \<in> set xs \<Longrightarrow>
     \<exists>n<length xs. indexOfFrom x xs i = i + int n \<and> take n xs @ drop (Suc n) xs = remove1 x xs"
proof (induction xs arbitrary: i)
  case Nil
  then show ?case by simp
next
  case (Cons y ys)
  show ?case
  proof (cases "y = x")
    case True
    then have "indexOfFrom x (y # ys) i = i + int 0 \<and>
        take 0 (y # ys) @ drop (Suc 0) (y # ys) = remove1 x (y # ys)"
      by simp
    then show ?thesis by blast
  next
    case False
    with Cons.prems have "x \<in> set ys" by simp
    from Cons.IH [OF this, of "i + 1"] obtain n where
      "n < length ys" "indexOfFrom x ys (i + 1) = i + 1 + int n"
      "take n ys @ drop (Suc n) ys = remove1 x ys"
      by blast
    with False have "Suc n < length (y # ys) \<and> indexOfFrom x (y # ys) i = i + int (Suc n) \<and>
        take (Suc n) (y # ys) @ drop (Suc (Suc n)) (y # ys) = remove1 x (y # ys)"
      by simp
    then show ?thesis by blast
  qed
qed

lemma splice1_indexOf: "x \<in> set xs \<Longrightarrow> splice1 xs (indexOf xs x) = remove1 x xs"
proof -
  assume "x \<in> set xs"
  from indexOfFrom_remove1 [OF this, of 0] obtain n where
    "n < length xs" "indexOf xs x = int n" "take n xs @ drop (Suc n) xs = remove1 x xs"
    by (auto simp: indexOf_def)
  then show ?thesis by (simp add: splice1_def Let_def)
qed

lemma filter_remove1_first:
  assumes "filter P xs = b # bs"
  shows "filter P (remove1 b xs) = bs"
proof -
  from assms have "b \<in> set (filter P xs)" by simp
  then have "P b" by simp
  with assms show ?thesis
    by (induction xs) (auto split: if_splits)
qed

lemma filter_remove1_other: "\<not> P b \<Longrightarrow> filter P (remove1 b xs) = filter P xs"
  by (induction xs) auto

lemma filter_Cons_mem: "filter P xs = b # bs \<Longrightarrow> b \<in> set xs"
  by (metis filter_is_subset list.set_intros(1) subsetD)

lemma unbind_frame:
  "elements (unbind x st) = elements st"
  "doc_size (unbind x st) = doc_size st"
  "doc_matches (unbind x st) = doc_matches st"
  "calls (unbind x st) = calls st"
  "closures (unbind x st) = closures st"
  by (simp_all add: unbind_def Let_def removeEventListener_def detachEvent_def
        split: option.splits listener_api.splits)

lemma unbind_unbound: "bindingsOf x st = [] \<Longrightarrow> unbind x st = st"
  by (simp add: unbind_def find_loop bindingsOf_def)

lemma unbind_bound:
  assumes "bindingsOf x st = b # bs"
  shows "liveElements (unbind x st) = remove1 b (liveElements st)"
    and "listeners (unbind x st) =
           (if api (elements st x) = NoEvents then listeners st
            else (listeners st)(x := remove1 (handler b) (listeners st x)))"
proof -
  from assms have "b \<in> set (liveElements st)"
    unfolding bindingsOf_def by (rule filter_Cons_mem)
  then have sp: "splice1 (liveElements st) (indexOf (liveElements st) b) = remove1 b (liveElements st)"
    by (rule splice1_indexOf)
  from assms have f: "filter (\<lambda>b. element b = x) (liveElements st) = b # bs"
    by (simp add: bindingsOf_def)
  show "liveElements (unbind x st) = remove1 b (liveElements st)"
    by (simp add: unbind_def find_loop f Let_def sp removeEventListener_def detachEvent_def
          split: listener_api.splits)
  show "listeners (unbind x st) =
           (if api (elements st x) = NoEvents then listeners st
            else (listeners st)(x := remove1 (handler b) (listeners st x)))"
    by (simp add: unbind_def find_loop f Let_def removeEventListener_def detachEvent_def
          split: listener_api.splits)
qed

lemma unbind_same:
  "bindingsOf el (unbind el st) = tl (bindingsOf el st)"
  "listeners (unbind el st) el =
     (case bindingsOf el st of
        [] \<Rightarrow> listeners st el
      | b # _ \<Rightarrow> if api (elements st el) = NoEvents then listeners st el
                 else remove1 (handler b) (listeners st el))"
proof -
  show "bindingsOf el (unbind el st) = tl (bindingsOf el st)"
  proof (cases "bindingsOf el st")
    case Nil
    then show ?thesis by (simp add: unbind_unbound)
  next
    case (Cons b bs)
    then have "filter (\<lambda>b. element b = el) (remove1 b (liveElements st)) = bs"
      unfolding bindingsOf_def by (rule filter_remove1_first)
    with Cons show ?thesis
      by (simp add: bindingsOf_def [of el "unbind el st"] unbind_bound(1) [OF Cons])
  qed
  show "listeners (unbind el st) el =
     (case bindingsOf el st of
        [] \<Rightarrow> listeners st el
      | b # _ \<Rightarrow> if api (elements st el) = NoEvents then listeners st el
                 else remove1 (handler b) (listeners st el))"
  proof (cases "bindingsOf el st")
    case Nil
    then show ?thesis by (simp add: unbind_unbound)
  next
    case (Cons b bs)
    then show ?thesis by (simp add: unbind_bound(2) [OF Cons])
  qed
qed

lemma unbind_other:
  assumes "x \<noteq> el"
  shows "bindingsOf el (unbind x st) = bindingsOf el st"
    and "listeners (unbind x st) el = listeners st el"
proof -
  show "bindingsOf el (unbind x st) = bindingsOf el st"
  proof (cases "bindingsOf x st")
    case Nil
    then show ?thesis by (simp add: unbind_unbound)
  next
    case (Cons b bs)
    then have "b \<in> set (filter (\<lambda>b. element b = x) (liveElements st))"
      by (simp add: bindingsOf_def)
    with assms have "\<not> element b = el" by auto
    then have "filter (\<lambda>b. element b = el) (remove1 b (liveElements st)) =
        filter (\<lambda>b. element b = el) (liveElements st)"
      by (rule filter_remove1_other)
    then show ?thesis
      by (simp add: bindingsOf_def [of el] unbind_bound(1) [OF Cons])
  qed
  show "listeners (unbind x st) el = listeners st el"
  proof (cases "bindingsOf x st")
    case Nil
    then show ?thesis by (simp add: unbind_unbound)
  next
    case (Cons b bs)
    with assms show ?thesis by (simp add: unbind_bound(2) [OF Cons])
  qed
qed

lemma unbinds_frame:
  "elements (foldr unbind elems st) = elements st"
  "doc_size (foldr unbind elems st) = doc_size st"
  "doc_matches (foldr unbind elems st) = doc_matches st"
  "calls (foldr unbind elems st) = calls st"
  "closures (foldr unbind elems st) = closures st"
  by (induction elems) (simp_all add: unbind_frame)

lemma unbinds_other:
  "el \<notin> set elems \<Longrightarrow>
     bindingsOf el (foldr unbind elems st) = bindingsOf el st \<and>
     listeners (foldr unbind elems st) el = listeners st el"
  by (induction elems) (auto simp: unbind_other)

lemma unbinds_same:
  assumes "el \<in> set elems" and "distinct elems"
  shows "bindingsOf el (foldr unbind elems st) = tl (bindingsOf el st) \<and>
     listeners (foldr unbind elems st) el =
       (case bindingsOf el st of
          [] \<Rightarrow> listeners st el
        | b # _ \<Rightarrow> if api (elements st el) = NoEvents then listeners st el
                   else remove1 (handler b) (listeners st el))"
  using assms
proof (induction elems)
  case Nil
  then show ?case by simp
next
  case (Cons x xs)
  show ?case
  proof (cases "x = el")
    case True
    with Cons.prems have "el \<notin> set xs" by simp
    from unbinds_other [OF this, of st]
    have "bindingsOf el (foldr unbind xs st) = bindingsOf el st"
      and "listeners (foldr unbind xs st) el = listeners st el"
      by simp_all
    with True show ?thesis
      by (simp add: unbind_same unbinds_frame split: list.splits)
  next
    case False
    with Cons.prems have "el \<in> set xs" "distinct xs" by simp_all
    from Cons.IH [OF this] False show ?thesis
      by (simp add: unbind_other)
  qed
qed

lemma die_valid:
  "query (JString sel) st \<noteq> [] \<Longrightarrow>
     die (JString sel) st = (JCountable, foldr unbind (query (JString sel) st) st)"
  by (simp add: die_def validateArguments_def Let_def loop_foldr)

lemma runHandler_frame:
  "liveElements (runHandler h st) = liveElements st"
  "listeners (runHandler h st) = listeners st"
  "length (calls (runHandler h st)) = Suc (length (calls st))"
  by (simp_all add: runHandler_def callCallback_def)

lemma runHandlers_calls: "length (calls (fold runHandler hs st)) = length (calls st) + length hs"
  by (induction hs arbitrary: st) (simp_all add: runHandler_frame)

lemma dispatchEvent_calls:
  "length (calls (dispatchEvent el st)) = length (calls st) + length (listeners st el)"
  by (simp add: dispatchEvent_def runHandlers_calls)

lemma query_binds: "query sel (foldr (bind cb ops) elems st) = query sel st"
  by (simp add: query_def querySelectorAll_def binds_frame)

lemma live_bound:
  assumes "el \<in> set (query (JString sel) st)"
    and "\<forall>h\<in>set (listeners st el). h_id h < closures st"
  shows "\<exists>n R. closures st \<le> n \<and> n < closures (snd (live (JString sel) (JFunction cb) opts st)) \<and>
     bindingsOf el (snd (live (JString sel) (JFunction cb) opts st)) =
       bindingsOf el st @ [\<lparr>element = el, handler = closure n cb (extendDefaults opts) el\<rparr>] \<and>
     listeners (snd (live (JString sel) (JFunction cb) opts st)) el =
       (if api (elements st el) = NoEvents then listeners st el
        else listeners st el @ [closure n cb (extendDefaults opts) el]) \<and>
     \<lparr>inv_callback = cb, inv_this = el, inv_counts = count (elements st el) (extendDefaults opts),
      inv_registry = R @ [\<lparr>element = el, handler = closure n cb (extendDefaults opts) el\<rparr>],
      inv_listeners = listeners st el\<rparr>
       \<in> set (drop (length (calls st)) (calls (snd (live (JString sel) (JFunction cb) opts st))))"
proof -
  from assms(1) have ne: "query (JString sel) st \<noteq> []" by auto
  show ?thesis
    unfolding live_valid [OF ne] snd_conv
    using assms(1) query_distinct assms(2) by (rule binds_same)
qed

lemma live_frame:
  assumes "query (JString sel) st \<noteq> []"
  shows "elements (snd (live (JString sel) (JFunction cb) opts st)) = elements st"
    and "query s (snd (live (JString sel) (JFunction cb) opts st)) = query s st"
    and "closures st \<le> closures (snd (live (JString sel) (JFunction cb) opts st))"
  by (simp_all add: live_valid [OF assms] binds_frame query_binds)

lemma examplePage_query: "query (JString [0x2A]) examplePage = [0, 1]"
  by (simp add: query_def querySelectorAll_def examplePage_def loaded_def numeral_2_eq_2)

lemma examplePage_simps:
  "liveElements examplePage = []" "listeners examplePage el = []" "closures examplePage = 0"
  "elements examplePage el = textarea" "calls examplePage = []"
  by (simp_all add: examplePage_def loaded_def)

lemma examplePage_unbound: "bindingsOf el examplePage = []"
  by (simp add: bindingsOf_def examplePage_simps)

lemma live_twice:
  assumes "el \<in> set (query (JString sel) st)"
    and "\<forall>h\<in>set (listeners st el). h_id h < closures st"
    and "api (elements st el) \<noteq> NoEvents"
  shows "length (bindingsOf el
           (snd (live (JString sel) (JFunction cb) opts
             (snd (live (JString sel) (JFunction cb) opts st))))) =
         length (bindingsOf el st) + 2 \<and>
         length (calls (dispatchEvent el
           (snd (live (JString sel) (JFunction cb) opts
             (snd (live (JString sel) (JFunction cb) opts st)))))) =
         length (calls
           (snd (live (JString sel) (JFunction cb) opts
             (snd (live (JString sel) (JFunction cb) opts st))))) +
         length (listeners st el) + 2"
proof -
  define st1 where "st1 = snd (live (JString sel) (JFunction cb) opts st)"
  define st2 where "st2 = snd (live (JString sel) (JFunction cb) opts st1)"
  from assms(1) have ne: "query (JString sel) st \<noteq> []" by auto
  from live_bound [OF assms(1,2), of cb opts] obtain n where
    n: "n < closures st1" and
    b1: "length (bindingsOf el st1) = length (bindingsOf el st) + 1" and
    l1: "listeners st1 el =
           (if api (elements st el) = NoEvents then listeners st el
            else listeners st el @ [closure n cb (extendDefaults opts) el])"
    unfolding st1_def by auto
  have q1: "el \<in> set (query (JString sel) st1)"
    unfolding st1_def using assms(1) by (simp add: live_frame(2) [OF ne])
  have e1: "elements st1 = elements st"
    unfolding st1_def by (rule live_frame(1) [OF ne])
  have "closures st \<le> closures st1"
    unfolding st1_def by (rule live_frame(3) [OF ne])
  with assms(2) n l1 have fresh1: "\<forall>h\<in>set (listeners st1 el). h_id h < closures st1"
    by (auto simp: closure_def)
  from live_bound [OF q1 fresh1, of cb opts] obtain m where
    b2: "length (bindingsOf el st2) = length (bindingsOf el st1) + 1" and
    l2: "listeners st2 el =
           (if api (elements st1 el) = NoEvents then listeners st1 el
            else listeners st1 el @ [closure m cb (extendDefaults opts) el])"
    unfolding st2_def by auto
  from b1 b2 l1 l2 e1 assms(3) show ?thesis
    unfolding st1_def [symmetric] st2_def [symmetric]
    by (simp add: dispatchEvent_calls)
qed

lemma die_bound:
  assumes "el \<in> set (query (JString sel) st)"
  shows "bindingsOf el (snd (die (JString sel) st)) = tl (bindingsOf el st)"
    and "listeners (snd (die (JString sel) st)) el =
       (case bindingsOf el st of
          [] \<Rightarrow> listeners st el
        | b # _ \<Rightarrow> if api (elements st el) = NoEvents then listeners st el
                   else remove1 (handler b) (listeners st el))"
proof -
  from assms have ne: "query (JString sel) st \<noteq> []" by auto
  from unbinds_same [OF assms query_distinct, of st]
  show "bindingsOf el (snd (die (JString sel) st)) = tl (bindingsOf el st)"
    and "listeners (snd (die (JString sel) st)) el =
       (case bindingsOf el st of
          [] \<Rightarrow> listeners st el
        | b # _ \<Rightarrow> if api (elements st el) = NoEvents then listeners st el
                   else remove1 (handler b) (listeners st el))"
    unfolding die_valid [OF ne] snd_conv by simp_all
qed

lemma validateArguments_frame:
  assumes "validateArguments selector elems cb st = (valid, st1)"
  shows "liveElements st1 = liveElements st" and "listeners st1 = listeners st"
    and "calls st1 = calls st" and "closures st1 = closures st"
    and "elements st1 = elements st"
  using assms by (auto simp: validateArguments_def Let_def split: if_splits)

lemma callCallbacks_frame:
  "liveElements (foldr (\<lambda>el s. callCallback f el (g s el) s) elems st) = liveElements st"
  "listeners (foldr (\<lambda>el s. callCallback f el (g s el) s) elems st) = listeners st"
  "closures (foldr (\<lambda>el s. callCallback f el (g s el) s) elems st) = closures st"
  "elements (foldr (\<lambda>el s. callCallback f el (g s el) s) elems st) = elements st"
  by (induction elems) (simp_all add: callCallback_def)

lemma once_frame:
  "liveElements (snd (once selector cb opts st)) = liveElements st"
  "listeners (snd (once selector cb opts st)) = listeners st"
  "closures (snd (once selector cb opts st)) = closures st"
  "elements (snd (once selector cb opts st)) = elements st"
proof -
  obtain valid st1 where v: "validateArguments selector (query selector st) cb st = (valid, st1)"
    by (cases "validateArguments selector (query selector st) cb st")
  note fr = validateArguments_frame [OF v]
  show "liveElements (snd (once selector cb opts st)) = liveElements st"
    by (simp add: once_def Let_def v loop_foldr callCallbacks_frame fr split: jsval.splits)
  show "listeners (snd (once selector cb opts st)) = listeners st"
    by (simp add: once_def Let_def v loop_foldr callCallbacks_frame fr split: jsval.splits)
  show "closures (snd (once selector cb opts st)) = closures st"
    by (simp add: once_def Let_def v loop_foldr callCallbacks_frame fr split: jsval.splits)
  show "elements (snd (once selector cb opts st)) = elements st"
    by (simp add: once_def Let_def v loop_foldr callCallbacks_frame fr split: jsval.splits)
qed

lemma enabled_registry: "liveElements st' = liveElements st \<Longrightarrow> enabled v st' = enabled v st"
  by (simp add: enabled_def split: jsval.splits)

lemma boundTwice_query: "query (JString [0x2A]) boundTwice = [0, 1]"
  by (simp add: boundTwice_def live_frame(2) examplePage_query)

lemma boundTwice_bindings: "length (bindingsOf 0 boundTwice) = 2"
proof -
  have "0 \<in> set (query (JString [0x2A]) examplePage)"
    by (simp add: examplePage_query)
  moreover have "\<forall>h\<in>set (listeners examplePage 0). h_id h < closures examplePage"
    by (simp add: examplePage_simps)
  moreover have "api (elements examplePage 0) \<noteq> NoEvents"
    by (simp add: examplePage_simps textarea_def)
  ultimately show ?thesis
    using live_twice [of 0 "[0x2A]" examplePage 7 "[]"]
    by (simp add: boundTwice_def examplePage_unbound)
qed

lemma live_invalid:
  assumes "\<not> fst (validateArguments selector (query selector st) cb st)"
  shows "fst (live selector cb opts st) = Undefined"
    and "liveElements (snd (live selector cb opts st)) = liveElements st"
    and "listeners (snd (live selector cb opts st)) = listeners st"
    and "calls (snd (live selector cb opts st)) = calls st"
proof -
  obtain valid st1 where v: "validateArguments selector (query selector st) cb st = (valid, st1)"
    by (cases "validateArguments selector (query selector st) cb st")
  note fr = validateArguments_frame [OF v]
  from assms v have nv: "\<not> valid" by simp
  show "fst (live selector cb opts st) = Undefined"
    and "liveElements (snd (live selector cb opts st)) = liveElements st"
    and "listeners (snd (live selector cb opts st)) = listeners st"
    and "calls (snd (live selector cb opts st)) = calls st"
    by (simp_all add: live_def Let_def v nv fr)
qed

lemma die_invalid:
  assumes "\<not> fst (validateArguments selector (query selector st) (JFunction 0) st)"
  shows "fst (die selector st) = Undefined"
    and "liveElements (snd (die selector st)) = liveElements st"
    and "listeners (snd (die selector st)) = listeners st"
    and "calls (snd (die selector st)) = calls st"
proof -
  obtain valid st1 where
    v: "validateArguments selector (query selector st) (JFunction 0) st = (valid, st1)"
    by (cases "validateArguments selector (query selector st) (JFunction 0) st")
  note fr = validateArguments_frame [OF v]
  from assms v have nv: "\<not> valid" by simp
  show "fst (die selector st) = Undefined"
    and "liveElements (snd (die selector st)) = liveElements st"
    and "listeners (snd (die selector st)) = listeners st"
    and "calls (snd (die selector st)) = calls st"
    by (simp_all add: die_def Let_def v nv fr)
qed

lemma once_invalid:
  assumes "\<not> fst (validateArguments selector (query selector st) cb st)"
  shows "fst (once selector cb opts st) = Undefined"
    and "calls (snd (once selector cb opts st)) = calls st"
proof -
  obtain valid st1 where v: "validateArguments selector (query selector st) cb st = (valid, st1)"
    by (cases "validateArguments selector (query selector st) cb st")
  note fr = validateArguments_frame [OF v]
  from assms v have nv: "\<not> valid" by simp
  show "fst (once selector cb opts st) = Undefined"
    and "calls (snd (once selector cb opts st)) = calls st"
    by (simp_all add: once_def Let_def v nv fr)
qed

lemma fresh_loaded: "fresh (loaded n m d)"
  by (simp add: fresh_def loaded_def)

lemma fresh_bind: "fresh st \<Longrightarrow> fresh (bind cb ops el st)"
  unfolding fresh_def
  by (auto simp: bind_def Let_def runHandler_def callCallback_def addEventListener_def
        attachEvent_def less_Suc_eq split: listener_api.splits if_splits)

lemma fresh_unbind: "fresh st \<Longrightarrow> fresh (unbind el st)"
  unfolding fresh_def
  by (auto simp: unbind_def Let_def removeEventListener_def detachEvent_def
        split: option.splits listener_api.splits if_splits dest: notin_set_remove1)

lemma fresh_validateArguments:
  "fresh st \<Longrightarrow> fresh (snd (validateArguments selector elems cb st))"
  by (simp add: fresh_def validateArguments_def Let_def)

lemma fresh_binds: "fresh st \<Longrightarrow> fresh (foldr (bind cb ops) elems st)"
  by (induction elems) (simp_all add: fresh_bind)

lemma fresh_unbinds: "fresh st \<Longrightarrow> fresh (foldr unbind elems st)"
  by (induction elems) (simp_all add: fresh_unbind)

lemma fresh_live:
  assumes "fresh st"
  shows "fresh (snd (live selector cb opts st))"
proof -
  obtain valid st1 where v: "validateArguments selector (query selector st) cb st = (valid, st1)"
    by (cases "validateArguments selector (query selector st) cb st")
  from fresh_validateArguments [OF assms, of selector "query selector st" cb] v
  have "fresh st1" by simp
  then show ?thesis
    by (simp add: live_def Let_def v loop_foldr fresh_binds split: jsval.splits)
qed

lemma fresh_die:
  assumes "fresh st"
  shows "fresh (snd (die selector st))"
proof -
  obtain valid st1 where
    v: "validateArguments selector (query selector st) (JFunction 0) st = (valid, st1)"
    by (cases "validateArguments selector (query selector st) (JFunction 0) st")
  from fresh_validateArguments [OF assms, of selector "query selector st" "JFunction 0"] v
  have "fresh st1" by simp
  then show ?thesis
    by (simp add: die_def Let_def v loop_foldr fresh_unbinds)
qed

lemma fresh_once: "fresh st \<Longrightarrow> fresh (snd (once selector cb opts st))"
  by (simp add: fresh_def once_frame)

lemma dispatchEvent_frame:
  "liveElements (dispatchEvent el st) = liveElements st"
  "listeners (dispatchEvent el st) = listeners st"
  "closures (dispatchEvent el st) = closures st"
  "elements (dispatchEvent el st) = elements st"
proof -
  have "liveElements (fold runHandler hs s) = liveElements s \<and>
        listeners (fold runHandler hs s) = listeners s \<and>
        closures (fold runHandler hs s) = closures s \<and>
        elements (fold runHandler hs s) = elements s" for hs s
    by (induction hs arbitrary: s) (simp_all add: runHandler_def callCallback_def)
  then show "liveElements (dispatchEvent el st) = liveElements st"
    and "listeners (dispatchEvent el st) = listeners st"
    and "closures (dispatchEvent el st) = closures st"
    and "elements (dispatchEvent el st) = elements st"
    by (simp_all add: dispatchEvent_def)
qed

lemma fresh_dispatchEvent: "fresh st \<Longrightarrow> fresh (dispatchEvent el st)"
  by (simp add: fresh_def dispatchEvent_frame)

lemma consistent_loaded: "consistent (loaded n m d)"
  by (simp add: consistent_def fresh_loaded) (simp add: loaded_def)

lemma unbound_no_listeners:
  assumes "consistent st" and "\<not> enabled (JElement el) st"
  shows "listeners st el = []"
proof (rule ccontr)
  assume "listeners st el \<noteq> []"
  then obtain h where "h \<in> set (listeners st el)" by (cases "listeners st el") auto
  with assms(1) have "\<lparr>element = el, handler = h\<rparr> \<in> set (liveElements st)"
    by (auto simp: consistent_def)
  then have "\<lparr>element = el, handler = h\<rparr> \<in> set (bindingsOf el st)"
    by (simp add: bindingsOf_def)
  with assms(2) show False by (auto simp: enabled_iff)
qed

lemma listeners_bind:
  "listeners (bind cb ops x st) =
     (case api (elements st x) of
        EventTarget \<Rightarrow>
          (listeners st)(x := if closure (closures st) cb ops x \<in> set (listeners st x)
                              then listeners st x
                              else listeners st x @ [closure (closures st) cb ops x])
      | LegacyEvents \<Rightarrow> (listeners st)(x := listeners st x @ [closure (closures st) cb ops x])
      | NoEvents \<Rightarrow> listeners st)"
  by (simp add: bind_def Let_def runHandler_def callCallback_def addEventListener_def
        attachEvent_def closure_def split: listener_api.splits)

lemma consistent_bind:
  assumes "consistent st"
  shows "consistent (bind cb ops x st)"
proof -
  from assms have f: "fresh st" and d: "\<And>el. distinct (listeners st el)"
    and b: "\<And>el h. h \<in> set (listeners st el) \<Longrightarrow>
          api (elements st el) \<noteq> NoEvents \<and> \<lparr>element = el, handler = h\<rparr> \<in> set (liveElements st)"
    by (auto simp: consistent_def)
  have new: "closure (closures st) cb ops x \<notin> set (listeners st el)" for el
  proof
    assume "closure (closures st) cb ops x \<in> set (listeners st el)"
    with f have "h_id (closure (closures st) cb ops x) < closures st"
      unfolding fresh_def by blast
    then show False by (simp add: closure_def)
  qed
  have "fresh (bind cb ops x st)" using f by (rule fresh_bind)
  moreover have "distinct (listeners (bind cb ops x st) el)" for el
    using d new by (simp add: listeners_bind split: listener_api.splits)
  moreover have "api (elements (bind cb ops x st) el) \<noteq> NoEvents \<and>
      \<lparr>element = el, handler = h\<rparr> \<in> set (liveElements (bind cb ops x st))"
    if "h \<in> set (listeners (bind cb ops x st) el)" for el h
    using that b [of h el]
    by (auto simp: listeners_bind bind_frame closure_def split: listener_api.splits if_splits)
  ultimately show ?thesis by (simp add: consistent_def)
qed

lemma consistent_unbind:
  assumes "consistent st"
  shows "consistent (unbind x st)"
proof (cases "bindingsOf x st")
  case Nil
  with assms show ?thesis by (simp add: unbind_unbound)
next
  case (Cons b0 bs)
  from assms have f: "fresh st" and d: "\<And>el. distinct (listeners st el)"
    and b: "\<And>el h. h \<in> set (listeners st el) \<Longrightarrow>
          api (elements st el) \<noteq> NoEvents \<and> \<lparr>element = el, handler = h\<rparr> \<in> set (liveElements st)"
    by (auto simp: consistent_def)
  from Cons have "b0 \<in> set (bindingsOf x st)" by simp
  then have x: "element b0 = x" by (simp add: bindingsOf_def)
  note l = unbind_bound(2) [OF Cons] and r = unbind_bound(1) [OF Cons]
  have "fresh (unbind x st)" using f by (rule fresh_unbind)
  moreover have "distinct (listeners (unbind x st) el)" for el
    using d by (simp add: l)
  moreover have "api (elements (unbind x st) el) \<noteq> NoEvents \<and>
      \<lparr>element = el, handler = h\<rparr> \<in> set (liveElements (unbind x st))"
    if h: "h \<in> set (listeners (unbind x st) el)" for el h
  proof -
    from h have in_old: "h \<in> set (listeners st el)"
      using set_remove1_subset [of "handler b0" "listeners st x"]
      by (auto simp: l split: if_splits)
    from b [OF in_old] have a: "api (elements st el) \<noteq> NoEvents"
      and m: "\<lparr>element = el, handler = h\<rparr> \<in> set (liveElements st)" by simp_all
    have "\<lparr>element = el, handler = h\<rparr> \<noteq> b0"
    proof
      assume e: "\<lparr>element = el, handler = h\<rparr> = b0"
      with x have "el = x" and "handler b0 = h" by auto
      with h a d [of x] show False by (simp add: l)
    qed
    with m have "\<lparr>element = el, handler = h\<rparr> \<in> set (remove1 b0 (liveElements st))"
      by simp
    with a show ?thesis by (simp add: r unbind_frame)
  qed
  ultimately show ?thesis by (simp add: consistent_def)
qed

lemma consistent_frame:
  assumes "liveElements st' = liveElements st" and "listeners st' = listeners st"
    and "closures st' = closures st" and "elements st' = elements st"
  shows "consistent st' = consistent st"
  by (simp add: consistent_def fresh_def assms)

lemma consistent_binds: "consistent st \<Longrightarrow> consistent (foldr (bind cb ops) elems st)"
  by (induction elems) (simp_all add: consistent_bind)

lemma consistent_unbinds: "consistent st \<Longrightarrow> consistent (foldr unbind elems st)"
  by (induction elems) (simp_all add: consistent_unbind)

lemma consistent_live:
  assumes "consistent st"
  shows "consistent (snd (live selector cb opts st))"
proof -
  obtain valid st1 where v: "validateArguments selector (query selector st) cb st = (valid, st1)"
    by (cases "validateArguments selector (query selector st) cb st")
  note fr = validateArguments_frame [OF v]
  from assms have "consistent st1"
    by (simp add: consistent_frame [OF fr(1,2,4,5)])
  then show ?thesis
    by (simp add: live_def Let_def v loop_foldr consistent_binds split: jsval.splits)
qed

lemma consistent_die:
  assumes "consistent st"
  shows "consistent (snd (die selector st))"
proof -
  obtain valid st1 where
    v: "validateArguments selector (query selector st) (JFunction 0) st = (valid, st1)"
    by (cases "validateArguments selector (query selector st) (JFunction 0) st")
  note fr = validateArguments_frame [OF v]
  from assms have "consistent st1"
    by (simp add: consistent_frame [OF fr(1,2,4,5)])
  then show ?thesis
    by (simp add: die_def Let_def v loop_foldr consistent_unbinds)
qed

lemma consistent_once: "consistent st \<Longrightarrow> consistent (snd (once selector cb opts st))"
  by (simp add: consistent_frame [OF once_frame])

lemma consistent_dispatchEvent: "consistent st \<Longrightarrow> consistent (dispatchEvent el st)"
  by (simp add: consistent_frame [OF dispatchEvent_frame])


subsection \<open>The claims about the registry\<close>

text \<open>
  C1, as stated, fails on the example page: after \<open>live\<close> has run twice with the same
  selector and callback, the registry holds two Bindings for the first text area, and a
  change event on it runs two handlers.
\<close>

theorem C1_counterexample:
  "length (bindingsOf 0 boundTwice) = 2 \<and>
   length (calls (dispatchEvent 0 boundTwice)) = length (calls boundTwice) + 2"
proof -
  have "0 \<in> set (query (JString [0x2A]) examplePage)"
    by (simp add: examplePage_query)
  moreover have "\<forall>h\<in>set (listeners examplePage 0). h_id h < closures examplePage"
    by (simp add: examplePage_simps)
  moreover have "api (elements examplePage 0) \<noteq> NoEvents"
    by (simp add: examplePage_simps textarea_def)
  ultimately show ?thesis
    using live_twice [of 0 "[0x2A]" examplePage 7 "[]"]
    by (simp add: boundTwice_def examplePage_simps examplePage_unbound)
qed

text \<open>
  C1, amended: \<open>live\<close> neither replaces nor refuses a Binding. After two calls of
  \<open>live\<close> that resolve an element, the registry holds two more Bindings for it than
  before, and a change event on it runs two more handlers than were on it before. The
  element is one that takes listeners, and the handlers already on it are closures
  created earlier, as they are in every fresh state.
\<close>

theorem C1_live_twice:
  assumes "el \<in> set (query (JString sel) st)"
    and "\<forall>h\<in>set (listeners st el). h_id h < closures st"
    and "api (elements st el) \<noteq> NoEvents"
  shows "length (bindingsOf el
           (snd (live (JString sel) (JFunction cb) opts
             (snd (live (JString sel) (JFunction cb) opts st))))) =
         length (bindingsOf el st) + 2 \<and>
         length (calls (dispatchEvent el
           (snd (live (JString sel) (JFunction cb) opts
             (snd (live (JString sel) (JFunction cb) opts st)))))) =
         length (calls
           (snd (live (JString sel) (JFunction cb) opts
             (snd (live (JString sel) (JFunction cb) opts st))))) +
         length (listeners st el) + 2"
  using assms by (rule live_twice)

theorem C1_live_twice_witness:
  "1 \<in> set (query (JString [0x2A]) examplePage) \<and>
   listeners examplePage 1 = [] \<and>
   api (elements examplePage 1) = EventTarget \<and>
   length (bindingsOf 1
     (snd (live (JString [0x2A]) (JFunction 3) [(''stripTags'', True)]
       (snd (live (JString [0x2A]) (JFunction 3) [(''stripTags'', True)] examplePage))))) = 2 \<and>
   length (calls (dispatchEvent 1
     (snd (live (JString [0x2A]) (JFunction 3) [(''stripTags'', True)]
       (snd (live (JString [0x2A]) (JFunction 3) [(''stripTags'', True)] examplePage)))))) =
   length (calls
     (snd (live (JString [0x2A]) (JFunction 3) [(''stripTags'', True)]
       (snd (live (JString [0x2A]) (JFunction 3) [(''stripTags'', True)] examplePage))))) + 2"
proof -
  have h1: "1 \<in> set (query (JString [0x2A]) examplePage)"
    by (simp add: examplePage_query)
  have h2: "\<forall>h\<in>set (listeners examplePage 1). h_id h < closures examplePage"
    by (simp add: examplePage_simps)
  have h3: "api (elements examplePage 1) \<noteq> NoEvents"
    by (simp add: examplePage_simps textarea_def)
  from C1_live_twice [OF h1 h2 h3, of 3 "[(''stripTags'', True)]"] h1 show ?thesis
    by (simp add: examplePage_simps examplePage_unbound textarea_def)
qed

text \<open>
  C4 at three calls that fail the validation on the example page: \<open>live\<close> with a
  selector that is no string, \<open>die\<close> with a selector that finds nothing, and \<open>once\<close>
  with a callback that is no function. Each returns \<open>undefined\<close> and not the object
  that the claim and the comments of the source promise for chaining. (The lemmas
  \<open>live_invalid\<close>, \<open>die_invalid\<close> and \<open>once_invalid\<close> show the rest of the claim:
  nothing is bound and no callback runs.)
\<close>

theorem C4_invalid_returns_undefined:
  "fst (live JOther (JFunction 7) [] examplePage) = Undefined \<and>
   fst (die (JString [0x70]) examplePage) = Undefined \<and>
   fst (once (JString [0x2A]) Undefined [] examplePage) = Undefined"
  by (simp add: live_invalid(1) die_invalid(1) once_invalid(1) validateArguments_def
        query_def querySelectorAll_def examplePage_def loaded_def)




text \<open>
  C8: \<open>once\<close> leaves the registry and the listeners of every element as they were, so
  \<open>enabled\<close> answers after the call what it answered before, whatever the arguments.
\<close>

theorem C8_once_frame:
  "liveElements (snd (once selector cb opts st)) = liveElements st \<and>
   listeners (snd (once selector cb opts st)) = listeners st \<and>
   enabled v (snd (once selector cb opts st)) = enabled v st"
  using enabled_registry [of "snd (once selector cb opts st)" st v]
  by (simp add: once_frame)

text \<open>
  C9: when the registry holds more than one Binding for an element, \<open>die\<close> on a selector
  that finds it removes the first of them, the earliest one, and detaches only the handler
  of that one; the others stay, and \<open>enabled\<close> is still true for the element.
\<close>

theorem C9_die_removes_earliest:
  assumes "el \<in> set (query (JString sel) st)"
    and "1 < length (bindingsOf el st)"
  shows "bindingsOf el (snd (die (JString sel) st)) = tl (bindingsOf el st) \<and>
     enabled (JElement el) (snd (die (JString sel) st)) \<and>
     listeners (snd (die (JString sel) st)) el =
       (if api (elements st el) = NoEvents then listeners st el
        else remove1 (handler (hd (bindingsOf el st))) (listeners st el))"
proof -
  from assms(2) obtain b b' bs where bs: "bindingsOf el st = b # b' # bs"
    by (cases "bindingsOf el st"; cases "tl (bindingsOf el st)") auto
  from die_bound [OF assms(1)] bs show ?thesis
    by (simp add: enabled_iff)
qed

theorem C9_die_removes_earliest_witness:
  "0 \<in> set (query (JString [0x2A]) boundTwice) \<and>
   length (bindingsOf 0 boundTwice) = 2 \<and>
   length (bindingsOf 0 (snd (die (JString [0x2A]) boundTwice))) = 1 \<and>
   enabled (JElement 0) (snd (die (JString [0x2A]) boundTwice))"
proof -
  have h1: "0 \<in> set (query (JString [0x2A]) boundTwice)"
    by (simp add: boundTwice_query)
  have h2: "1 < length (bindingsOf 0 boundTwice)"
    by (simp add: boundTwice_bindings)
  from C9_die_removes_earliest [OF h1 h2] h1 show ?thesis
    by (simp add: boundTwice_bindings)
qed

text \<open>
  C10: for every element that \<open>live\<close> resolves there is a new Binding and a call of the
  callback on that element with its counts; that call sees the Binding in the registry,
  so that \<open>enabled\<close> is true inside it, and does not yet see the handler among the
  listeners of the element; the handler is there after the call when the element takes
  listeners. Nothing is assumed of the element's listener methods, so the callback is
  called also where no handler can be attached.
\<close>

theorem C10_callback_before_listener:
  assumes "el \<in> set (query (JString sel) st)"
    and "\<forall>h\<in>set (listeners st el). h_id h < closures st"
  shows "\<exists>b\<in>set (liveElements (snd (live (JString sel) (JFunction cb) opts st))).
     element b = el \<and> h_callback (handler b) = cb \<and>
     (\<exists>i\<in>set (drop (length (calls st)) (calls (snd (live (JString sel) (JFunction cb) opts st)))).
        inv_callback i = cb \<and> inv_this i = el \<and>
        inv_counts i = count (elements st el) (extendDefaults opts) \<and>
        b \<in> set (inv_registry i) \<and>
        enabled (JElement el) (st\<lparr>liveElements := inv_registry i\<rparr>) \<and>
        handler b \<notin> set (inv_listeners i)) \<and>
     (api (elements st el) \<noteq> NoEvents \<longrightarrow>
        handler b \<in> set (listeners (snd (live (JString sel) (JFunction cb) opts st)) el))"
proof -
  define st' where "st' = snd (live (JString sel) (JFunction cb) opts st)"
  define ops where "ops = extendDefaults opts"
  from live_bound [OF assms, of cb opts] obtain n R where
    n: "closures st \<le> n" and
    b: "bindingsOf el st' = bindingsOf el st @ [\<lparr>element = el, handler = closure n cb ops el\<rparr>]" and
    l: "listeners st' el =
          (if api (elements st el) = NoEvents then listeners st el
           else listeners st el @ [closure n cb ops el])" and
    i: "\<lparr>inv_callback = cb, inv_this = el, inv_counts = count (elements st el) ops,
         inv_registry = R @ [\<lparr>element = el, handler = closure n cb ops el\<rparr>],
         inv_listeners = listeners st el\<rparr> \<in> set (drop (length (calls st)) (calls st'))"
    unfolding st'_def ops_def by blast
  define b0 where "b0 = \<lparr>element = el, handler = closure n cb ops el\<rparr>"
  define i0 where "i0 = \<lparr>inv_callback = cb, inv_this = el, inv_counts = count (elements st el) ops,
         inv_registry = R @ [b0], inv_listeners = listeners st el\<rparr>"
  from b have "b0 \<in> set (bindingsOf el st')" by (simp add: b0_def)
  then have mem: "b0 \<in> set (liveElements st')" by (simp add: bindingsOf_def)
  from n assms(2) have fresh: "closure n cb ops el \<notin> set (listeners st el)"
    by (auto simp: closure_def)
  have en: "enabled (JElement el) (st\<lparr>liveElements := R @ [b0]\<rparr>)"
    by (simp add: enabled_iff bindingsOf_def b0_def)
  have "element b0 = el \<and> h_callback (handler b0) = cb \<and>
     (inv_callback i0 = cb \<and> inv_this i0 = el \<and>
        inv_counts i0 = count (elements st el) ops \<and>
        b0 \<in> set (inv_registry i0) \<and>
        enabled (JElement el) (st\<lparr>liveElements := inv_registry i0\<rparr>) \<and>
        handler b0 \<notin> set (inv_listeners i0)) \<and>
     (api (elements st el) \<noteq> NoEvents \<longrightarrow> handler b0 \<in> set (listeners st' el))"
    using fresh en l by (simp add: b0_def i0_def closure_def)
  moreover from i have "i0 \<in> set (drop (length (calls st)) (calls st'))"
    by (simp add: i0_def b0_def)
  ultimately have "\<exists>i\<in>set (drop (length (calls st)) (calls st')).
     element b0 = el \<and> h_callback (handler b0) = cb \<and>
     (inv_callback i = cb \<and> inv_this i = el \<and>
        inv_counts i = count (elements st el) ops \<and>
        b0 \<in> set (inv_registry i) \<and>
        enabled (JElement el) (st\<lparr>liveElements := inv_registry i\<rparr>) \<and>
        handler b0 \<notin> set (inv_listeners i)) \<and>
     (api (elements st el) \<noteq> NoEvents \<longrightarrow> handler b0 \<in> set (listeners st' el))"
    by (rule bexI)
  then have "element b0 = el \<and> h_callback (handler b0) = cb \<and>
     (\<exists>i\<in>set (drop (length (calls st)) (calls st')).
        inv_callback i = cb \<and> inv_this i = el \<and>
        inv_counts i = count (elements st el) ops \<and>
        b0 \<in> set (inv_registry i) \<and>
        enabled (JElement el) (st\<lparr>liveElements := inv_registry i\<rparr>) \<and>
        handler b0 \<notin> set (inv_listeners i)) \<and>
     (api (elements st el) \<noteq> NoEvents \<longrightarrow> handler b0 \<in> set (listeners st' el))"
    by fast
  then show ?thesis
    unfolding st'_def [symmetric] ops_def [symmetric] using mem by (rule bexI)
qed

theorem C10_callback_before_listener_witness:
  "0 \<in> set (query (JString [0x2A]) examplePage) \<and>
   listeners examplePage 0 = [] \<and>
   (\<exists>b\<in>set (liveElements (snd (live (JString [0x2A]) (JFunction 9) [] examplePage))).
     element b = 0 \<and> h_callback (handler b) = 9 \<and>
     (\<exists>i\<in>set (drop (length (calls examplePage))
                (calls (snd (live (JString [0x2A]) (JFunction 9) [] examplePage)))).
        inv_callback i = 9 \<and> inv_this i = 0 \<and>
        inv_counts i = count (elements examplePage 0) (extendDefaults []) \<and>
        b \<in> set (inv_registry i) \<and>
        enabled (JElement 0) (examplePage\<lparr>liveElements := inv_registry i\<rparr>) \<and>
        handler b \<notin> set (inv_listeners i)) \<and>
     (api (elements examplePage 0) \<noteq> NoEvents \<longrightarrow>
        handler b \<in> set (listeners (snd (live (JString [0x2A]) (JFunction 9) [] examplePage)) 0)))"
proof -
  have h1: "0 \<in> set (query (JString [0x2A]) examplePage)"
    by (simp add: examplePage_query)
  have h3: "listeners examplePage 0 = []"
    by (simp add: examplePage_simps)
  then have h2: "\<forall>h\<in>set (listeners examplePage 0). h_id h < closures examplePage"
    by simp
  from C10_callback_before_listener [OF h1 h2, of 9 "[]"] h1 h3 show ?thesis
    by blast
qed

end
